theory Spec2Isabelle
  imports Main
begin

section \<open>JavaScript numbers\<close>

text \<open>
  The counter of \<^verbatim>\<open>src/App.jsx\<close> is a JavaScript number: it starts at the literal
  \<^verbatim>\<open>0\<close> and changes only by \<^verbatim>\<open>count + 1\<close>. A JavaScript number is an IEEE-754
  binary64 value, and \<^verbatim>\<open>+\<close> returns the exact sum rounded to the nearest binary64 value,
  ties to the even significand. Only integer values arise here, so a number is modelled
  by the integer it denotes and the rounding is written out on integers: a binary64
  value has a significand of 53 bits, so an integer of bit length \<open>l > 53\<close> is rounded
  to a multiple of \<open>2 ^ (l - 53)\<close>. Magnitudes from \<open>2 ^ 1024\<close> on (where binary64
  gives Infinity) are outside this model; a counter that grows by at most one per click
  stays far below.
\<close>

type_synonym number = int

fun bit_length :: "nat \<Rightarrow> nat" where
  "bit_length n = (if n = 0 then 0 else Suc (bit_length (n div 2)))"

declare bit_length.simps [simp del]

definition round_binary64 :: "int \<Rightarrow> number" where
  "round_binary64 x =
     (let m = nat \<bar>x\<bar>;
          ulp = 2 ^ (bit_length m - 53);
          q = m div ulp;
          r = m mod ulp;
          q' = (if 2 * r < ulp then q
                else if ulp < 2 * r then q + 1
                else if even q then q
                else q + 1)
      in sgn x * int (q' * ulp))"

text \<open>An integer is a binary64 value when rounding leaves it unchanged.\<close>

definition is_binary64 :: "int \<Rightarrow> bool" where
  "is_binary64 x = (round_binary64 x = x)"

text \<open>The operator \<^verbatim>\<open>+\<close> of \<^verbatim>\<open>count + 1\<close>.\<close>

definition number_add :: "number \<Rightarrow> number \<Rightarrow> number" where
  "number_add a b = round_binary64 (a + b)"

section \<open>The state hook\<close>

text \<open>
  \<^verbatim>\<open>const [count, setCount] = useState(0)\<close> keeps one number per mounted component.
  React stores it with a queue of pending updates: \<^verbatim>\<open>setCount(a)\<close> appends the action
  \<open>a\<close> to the queue and the next render's call of \<^verbatim>\<open>useState\<close> applies the queued
  actions in order, each to the result of the one before. An action is a new value or,
  as in \<^verbatim>\<open>App.jsx\<close>, a function of the previous value.
\<close>

datatype action = Value number | Updater "number \<Rightarrow> number"

fun basicStateReducer :: "number \<Rightarrow> action \<Rightarrow> number" where
  "basicStateReducer state (Value v) = v"
| "basicStateReducer state (Updater f) = f state"

record hook =
  memoizedState :: "number option"
  queue :: "action list"

definition mountState :: "number \<Rightarrow> hook" where
  "mountState initialState = \<lparr>memoizedState = Some initialState, queue = []\<rparr>"

text \<open>
  The first render (no state yet) returns the initial value; a later render returns the
  stored value with the queue applied, and empties the queue.
\<close>

definition useState :: "number \<Rightarrow> hook \<Rightarrow> number \<times> hook" where
  "useState initialState h =
     (case memoizedState h of
        None \<Rightarrow> (initialState, mountState initialState)
      | Some prev \<Rightarrow>
          (let next = foldl basicStateReducer prev (queue h)
           in (next, \<lparr>memoizedState = Some next, queue = []\<rparr>)))"

definition dispatchSetState :: "action \<Rightarrow> hook \<Rightarrow> hook" where
  "dispatchSetState a h = h\<lparr>queue := queue h @ [a]\<rparr>"

section \<open>The component of App.jsx\<close>

text \<open>
  What \<^verbatim>\<open>App\<close> returns is a tree of elements. An attribute is a string literal, an
  imported asset (named by its module specifier) or an event handler; a child written
  \<^verbatim>\<open>{count}\<close> is a number.
\<close>

datatype attr = Str string | Import string | Handler "hook \<Rightarrow> hook"

datatype node =
    Fragment "node list"
  | Element string "(string \<times> attr) list" "node list"
  | Text string
  | Num number

definition setCount :: "action \<Rightarrow> hook \<Rightarrow> hook" where
  "setCount = dispatchSetState"

text \<open>Line 26: \<^verbatim>\<open>onClick={() => setCount((count) => count + 1)}\<close>.\<close>

definition onClick :: "hook \<Rightarrow> hook" where
  "onClick = setCount (Updater (\<lambda>count. number_add count 1))"

text \<open>Lines 9 to 31: the returned tree, for the value \<open>count\<close> of this render.\<close>

definition jsx :: "number \<Rightarrow> node" where
  "jsx count =
     Fragment
      [Element ''div'' []
         [Element ''a''
            [(''href'', Str ''https://vitejs.dev''), (''target'', Str ''_blank''),
             (''rel'', Str ''noreferrer'')]
            [Element ''img''
               [(''src'', Import ''/vite.svg''), (''className'', Str ''logo''),
                (''alt'', Str ''Vite logo'')] []],
          Element ''a''
            [(''href'', Str ''https://react.dev''), (''target'', Str ''_blank''),
             (''rel'', Str ''noreferrer'')]
            [Element ''img''
               [(''src'', Import ''./assets/react.svg''), (''className'', Str ''logo react''),
                (''alt'', Str ''React logo'')] []]],
       Element ''h1'' [] [Text ''Demo Website''],
       Element ''div'' [(''className'', Str ''card'')]
         [Element ''p'' []
            [Text ''This is a demonstration website to show how to deploy a Vite+React app using GitHub Actions.''],
          Element ''p'' [(''className'', Str ''read-the-docs'')]
            [Text ''Click the logos to learn more about Vite and React''],
          Element ''button'' [(''onClick'', Handler onClick)]
            [Text ''Count is '', Num count]]]"

text \<open>Line 7 and the return: one call of the component, on the hook's state.\<close>

definition App :: "hook \<Rightarrow> node \<times> hook" where
  "App h = (let (count, h') = useState 0 h in (jsx count, h'))"

section \<open>The page\<close>

text \<open>
  A page is what the last render returned together with the hook's state. Loading the
  page mounts the component on an empty hook; nothing is persisted, so a reload is
  another load. A click runs the \<^verbatim>\<open>onClick\<close> handler of the rendered button, and
  React then renders again. An activation is a click with its render.
\<close>

record page =
  view :: node
  fiber :: hook

definition render :: "hook \<Rightarrow> page" where
  "render h = (let (v, h') = App h in \<lparr>view = v, fiber = h'\<rparr>)"

definition load :: page where
  "load = render \<lparr>memoizedState = None, queue = []\<rparr>"

definition reload :: "page \<Rightarrow> page" where
  "reload p = load"

fun elements :: "string \<Rightarrow> node \<Rightarrow> node list" and
    elements_list :: "string \<Rightarrow> node list \<Rightarrow> node list" where
  "elements tag (Fragment cs) = elements_list tag cs"
| "elements tag (Element t ps cs) =
     (if t = tag then [Element t ps cs] else []) @ elements_list tag cs"
| "elements tag (Text s) = []"
| "elements tag (Num n) = []"
| "elements_list tag [] = []"
| "elements_list tag (c # cs) = elements tag c @ elements_list tag cs"

definition click :: "page \<Rightarrow> page" where
  "click p =
     (case elements ''button'' (view p) of
        [Element t ps cs] \<Rightarrow>
          (case map_of ps ''onClick'' of
             Some (Handler f) \<Rightarrow> p\<lparr>fiber := f (fiber p)\<rparr>
           | _ \<Rightarrow> p)
      | _ \<Rightarrow> p)"

definition rerender :: "page \<Rightarrow> page" where
  "rerender p = render (fiber p)"

definition activate :: "page \<Rightarrow> page" where
  "activate p = rerender (click p)"

text \<open>The button's label, and the number it shows.\<close>

definition label :: "page \<Rightarrow> node list" where
  "label p = (case elements ''button'' (view p) of [Element t ps cs] \<Rightarrow> cs | _ \<Rightarrow> [])"

definition displayed :: "page \<Rightarrow> number option" where
  "displayed p = (case label p of [Text s, Num n] \<Rightarrow> Some n | _ \<Rightarrow> None)"

text \<open>
  A session is any sequence of clicks and renders after a load; its states are the
  reachable ones.
\<close>

datatype event = Click | Render

fun dispatch :: "page \<Rightarrow> event \<Rightarrow> page" where
  "dispatch p Click = click p"
| "dispatch p Render = rerender p"

definition session :: "event list \<Rightarrow> page" where
  "session es = foldl dispatch load es"

text \<open>
  The page rendered with the value \<open>c\<close> on which \<open>k\<close> clicks are still queued.
\<close>

definition page_at :: "number \<Rightarrow> nat \<Rightarrow> page" where
  "page_at c k =
     \<lparr>view = jsx c,
      fiber = \<lparr>memoizedState = Some c,
               queue = replicate k (Updater (\<lambda>count. number_add count 1))\<rparr>\<rparr>"

section \<open>Comparing two views\<close>

text \<open>
  The positions at which two trees differ, each a path of child indices from the root:
  where the nodes at a position differ in kind, tag, attributes or number of children
  the position itself is reported, otherwise the children are compared one by one.
\<close>

fun diff :: "node \<Rightarrow> node \<Rightarrow> nat list list" and
    diffs :: "nat \<Rightarrow> node list \<Rightarrow> node list \<Rightarrow> nat list list" where
  "diff (Fragment cs) (Fragment cs') =
     (if length cs = length cs' then diffs 0 cs cs' else [[]])"
| "diff (Element t ps cs) (Element t' ps' cs') =
     (if t = t' \<and> ps = ps' \<and> length cs = length cs' then diffs 0 cs cs' else [[]])"
| "diff a b = (if a = b then [] else [[]])"
| "diffs i (c # cs) (c' # cs') = map ((#) i) (diff c c') @ diffs (Suc i) cs cs'"
| "diffs i cs cs' = []"

text \<open>The subtree at a position.\<close>

fun subtree :: "node \<Rightarrow> nat list \<Rightarrow> node option" where
  "subtree t [] = Some t"
| "subtree (Fragment cs) (i # is) = (if i < length cs then subtree (cs ! i) is else None)"
| "subtree (Element t ps cs) (i # is) = (if i < length cs then subtree (cs ! i) is else None)"
| "subtree t (i # is) = None"

section \<open>The deployment workflow of the README\<close>

text \<open>
  Section 3 of \<^verbatim>\<open>README.md\<close> (lines 74 to 126) gives the file
  \<^verbatim>\<open>.github/workflows/deploy.yml\<close>. A workflow is data: its trigger, and jobs made of
  steps. A step names an action (\<^verbatim>\<open>uses\<close>) or a shell command (\<^verbatim>\<open>run\<close>) and passes
  inputs (\<^verbatim>\<open>with\<close>); a job can name the jobs it needs and a condition (\<^verbatim>\<open>if\<close>).
  The one condition of this workflow compares \<^verbatim>\<open>github.ref\<close> with a string literal.
\<close>

datatype operand = GithubRef | Literal string

datatype expr = Equals operand operand

record step =
  step_name :: string
  uses :: "string option"
  run_script :: "string option"
  with_inputs :: "(string \<times> string) list"

record job =
  job_name :: string
  needs :: "string list"
  runs_on :: string
  if_condition :: "expr option"
  steps :: "step list"

record workflow =
  workflow_name :: string
  on_push_branches :: "string list"
  jobs :: "(string \<times> job) list"

text \<open>Lines 83 to 106: the job \<^verbatim>\<open>build\<close>.\<close>

definition build_job :: job where
  "build_job =
     \<lparr>job_name = ''Build'', needs = [], runs_on = ''ubuntu-latest'', if_condition = None,
      steps =
        [\<lparr>step_name = ''Checkout repo'', uses = Some ''actions/checkout@v4'',
          run_script = None, with_inputs = []\<rparr>,
         \<lparr>step_name = ''Setup Node'', uses = Some ''actions/setup-node@v4'',
          run_script = None, with_inputs = [(''node-version'', ''20'')]\<rparr>,
         \<lparr>step_name = ''Install dependencies'', uses = Some ''bahmutov/npm-install@v1'',
          run_script = None, with_inputs = []\<rparr>,
         \<lparr>step_name = ''Build project'', uses = None,
          run_script = Some ''npm run build'', with_inputs = []\<rparr>,
         \<lparr>step_name = ''Upload production-ready build files'',
          uses = Some ''actions/upload-artifact@v4'', run_script = None,
          with_inputs = [(''name'', ''production-files''), (''path'', ''./dist'')]\<rparr>]\<rparr>"

text \<open>Lines 108 to 125: the job \<^verbatim>\<open>deploy\<close>.\<close>

definition deploy_job :: job where
  "deploy_job =
     \<lparr>job_name = ''Deploy'', needs = [''build''], runs_on = ''ubuntu-latest'',
      if_condition = Some (Equals GithubRef (Literal ''refs/heads/main'')),
      steps =
        [\<lparr>step_name = ''Download artifact'', uses = Some ''actions/download-artifact@v4'',
          run_script = None,
          with_inputs = [(''name'', ''production-files''), (''path'', ''./dist'')]\<rparr>,
         \<lparr>step_name = ''Deploy to GitHub Pages'',
          uses = Some ''peaceiris/actions-gh-pages@v4'', run_script = None,
          with_inputs = [(''github_token'', ''${{ secrets.GITHUB_TOKEN }}''),
                         (''publish_dir'', ''./dist'')]\<rparr>]\<rparr>"

text \<open>Lines 75 to 82: the name, the trigger and the two jobs.\<close>

definition deploy_yml :: workflow where
  "deploy_yml =
     \<lparr>workflow_name = ''Deploy'',
      on_push_branches = [''main''],
      jobs = [(''build'', build_job), (''deploy'', deploy_job)]\<rparr>"

section \<open>Running a workflow\<close>

text \<open>
  What GitHub Actions does with a workflow, as far as this one uses it. The event gives
  its name and the ref that was pushed. A run keeps the steps that ran (in order, with
  their job), the artifacts uploaded so far (name and uploaded path), the workspace of
  the running job (which artifact was downloaded to which path), what was published
  (the directory and the artifact found there) and the conclusion of each job.
\<close>

record github =
  event_name :: string
  ref :: string

datatype conclusion = Success | Failure | Skipped

record run_state =
  trace :: "(string \<times> string) list"
  artifacts :: "(string \<times> string) list"
  workspace :: "(string \<times> string) list"
  published :: "(string \<times> string option) list"
  conclusions :: "(string \<times> conclusion) list"

definition initial :: run_state where
  "initial = \<lparr>trace = [], artifacts = [], workspace = [], published = [], conclusions = []\<rparr>"

fun operand_value :: "github \<Rightarrow> operand \<Rightarrow> string" where
  "operand_value gh GithubRef = ref gh"
| "operand_value gh (Literal s) = s"

text \<open>The operator \<^verbatim>\<open>==\<close> of a condition ignores case when it compares strings.\<close>

definition lower :: "char \<Rightarrow> char" where
  "lower c =
     (let n = of_char c :: nat in if 65 \<le> n \<and> n \<le> 90 then char_of (n + 32) else c)"

fun eval_expr :: "github \<Rightarrow> expr \<Rightarrow> bool" where
  "eval_expr gh (Equals a b) = (map lower (operand_value gh a) = map lower (operand_value gh b))"

text \<open>
  A workflow with a branch filter on \<^verbatim>\<open>push\<close> is triggered by a push to a listed
  branch. The branches of this workflow are listed by name; patterns are not modelled.
\<close>

definition triggered :: "workflow \<Rightarrow> github \<Rightarrow> bool" where
  "triggered w gh =
     (event_name gh = ''push'' \<and> ref gh \<in> set (map ((@) ''refs/heads/'') (on_push_branches w)))"

text \<open>
  Whether a step's action or command itself succeeds is not decided by the workflow: it
  is a parameter, asked by job and step name. A step that ran is in the trace, also when
  it failed. Beyond that, three actions have an effect on the run:
  \<^verbatim>\<open>actions/upload-artifact\<close> stores the path under the artifact's name,
  \<^verbatim>\<open>actions/download-artifact\<close> fails unless an artifact of that name was uploaded and
  puts it at the path, and \<^verbatim>\<open>peaceiris/actions-gh-pages\<close> publishes the directory
  \<^verbatim>\<open>publish_dir\<close>. Every such step of this workflow gives the inputs read here; a
  step that leaves one out fails in this model.
\<close>

definition input :: "step \<Rightarrow> string \<Rightarrow> string option" where
  "input s k = map_of (with_inputs s) k"

definition action_of :: "step \<Rightarrow> string" where
  "action_of s = (case uses s of None \<Rightarrow> [] | Some u \<Rightarrow> takeWhile (\<lambda>c. c \<noteq> CHR ''@'') u)"

type_synonym outcomes = "string \<Rightarrow> string \<Rightarrow> bool"

definition run_step :: "outcomes \<Rightarrow> string \<Rightarrow> step \<Rightarrow> run_state \<Rightarrow> bool \<times> run_state" where
  "run_step ok job_id s st =
     (let st' = st\<lparr>trace := trace st @ [(job_id, step_name s)]\<rparr> in
      if \<not> ok job_id (step_name s) then (False, st')
      else if action_of s = ''actions/upload-artifact'' then
        (case (input s ''name'', input s ''path'') of
           (Some n, Some p) \<Rightarrow> (True, st'\<lparr>artifacts := artifacts st' @ [(n, p)]\<rparr>)
         | _ \<Rightarrow> (False, st'))
      else if action_of s = ''actions/download-artifact'' then
        (case (input s ''name'', input s ''path'') of
           (Some n, Some p) \<Rightarrow>
             (if n \<in> fst ` set (artifacts st')
              then (True, st'\<lparr>workspace := (p, n) # workspace st'\<rparr>)
              else (False, st'))
         | _ \<Rightarrow> (False, st'))
      else if action_of s = ''peaceiris/actions-gh-pages'' then
        (case input s ''publish_dir'' of
           Some d \<Rightarrow> (True, st'\<lparr>published := published st' @ [(d, map_of (workspace st') d)]\<rparr>)
         | None \<Rightarrow> (False, st'))
      else (True, st'))"

text \<open>The steps of a job run in order; the first failing step fails the job and ends it.\<close>

fun run_steps :: "outcomes \<Rightarrow> string \<Rightarrow> step list \<Rightarrow> run_state \<Rightarrow> conclusion \<times> run_state" where
  "run_steps ok job_id [] st = (Success, st)"
| "run_steps ok job_id (s # ss) st =
     (case run_step ok job_id s st of
        (True, st') \<Rightarrow> run_steps ok job_id ss st'
      | (False, st') \<Rightarrow> (Failure, st'))"

definition conclude :: "string \<Rightarrow> conclusion \<Rightarrow> run_state \<Rightarrow> run_state" where
  "conclude job_id c st = st\<lparr>conclusions := conclusions st @ [(job_id, c)]\<rparr>"

text \<open>
  A job runs when every job it needs has concluded with success and its condition, if
  it has one, holds; otherwise it is skipped. It starts on an empty workspace.
\<close>

definition guard :: "github \<Rightarrow> job \<Rightarrow> run_state \<Rightarrow> bool" where
  "guard gh j st =
     (list_all (\<lambda>n. map_of (conclusions st) n = Some Success) (needs j)
      \<and> (case if_condition j of None \<Rightarrow> True | Some e \<Rightarrow> eval_expr gh e))"

definition run_job :: "github \<Rightarrow> outcomes \<Rightarrow> string \<Rightarrow> job \<Rightarrow> run_state \<Rightarrow> run_state" where
  "run_job gh ok job_id j st =
     (if guard gh j st then
        (case run_steps ok job_id (steps j) (st\<lparr>workspace := []\<rparr>) of
           (c, st') \<Rightarrow> conclude job_id c st')
      else conclude job_id Skipped st)"

text \<open>
  Jobs are started as the jobs they need conclude. Each round starts the first pending
  job whose needs have all concluded; one round per job is enough.
\<close>

definition ready :: "run_state \<Rightarrow> string \<times> job \<Rightarrow> bool" where
  "ready st ij = list_all (\<lambda>n. map_of (conclusions st) n \<noteq> None) (needs (snd ij))"

fun schedule ::
  "github \<Rightarrow> outcomes \<Rightarrow> nat \<Rightarrow> (string \<times> job) list \<Rightarrow> run_state \<Rightarrow> run_state" where
  "schedule gh ok 0 pending st = st"
| "schedule gh ok (Suc fuel) pending st =
     (case find (ready st) pending of
        None \<Rightarrow> st
      | Some (job_id, j) \<Rightarrow>
          schedule gh ok fuel (filter (\<lambda>ij. fst ij \<noteq> job_id) pending) (run_job gh ok job_id j st))"

definition run_jobs :: "workflow \<Rightarrow> github \<Rightarrow> outcomes \<Rightarrow> run_state" where
  "run_jobs w gh ok = schedule gh ok (length (jobs w)) (jobs w) initial"

text \<open>Lines 77 to 80: the workflow runs on a push to one of the listed branches.\<close>

definition run_workflow :: "workflow \<Rightarrow> github \<Rightarrow> outcomes \<Rightarrow> run_state" where
  "run_workflow w gh ok = (if triggered w gh then run_jobs w gh ok else initial)"

text \<open>Every step of a job succeeds by itself.\<close>

definition passes :: "outcomes \<Rightarrow> string \<Rightarrow> job \<Rightarrow> bool" where
  "passes ok job_id j = list_all (\<lambda>s. ok job_id (step_name s)) (steps j)"

text \<open>A push to the branch \<^verbatim>\<open>main\<close>.\<close>

definition main_push :: github where
  "main_push = \<lparr>event_name = ''push'', ref = ''refs/heads/main''\<rparr>"

section \<open>The base path\<close>

text \<open>
  Section 6 of the README (lines 170 to 179) gives \<^verbatim>\<open>vite.config.js\<close>; section 2 names
  the repository \<^verbatim>\<open>react-deploy-demo\<close> (lines 58 and 66) and section 5 gives the address
  GitHub Pages serves it under (line 161). Vite prefixes the address of every built asset
  with the configured \<^verbatim>\<open>base\<close>.
\<close>

record vite_config =
  plugins :: "string list"
  base :: string

definition vite_config_js :: vite_config where
  "vite_config_js = \<lparr>plugins = [''react()''], base = ''/react-deploy-demo/''\<rparr>"

definition repository :: string where
  "repository = ''react-deploy-demo''"

definition pages_url :: "string \<Rightarrow> string \<Rightarrow> string" where
  "pages_url user repo = ''https://'' @ user @ ''.github.io/'' @ repo @ ''/''"

definition asset_url :: "vite_config \<Rightarrow> string \<Rightarrow> string" where
  "asset_url cfg file = base cfg @ file"

section \<open>Rounding\<close>

lemma bit_length_le: "n < 2 ^ k \<Longrightarrow> bit_length n \<le> k"
proof (induction k arbitrary: n)
  case 0
  then show ?case by (simp add: bit_length.simps)
next
  case (Suc k)
  then have "n div 2 < 2 ^ k" by simp
  then have "bit_length (n div 2) \<le> k" by (rule Suc.IH)
  then show ?case by (subst bit_length.simps) simp
qed

lemma bit_length_gt: "2 ^ k \<le> n \<Longrightarrow> k < bit_length n"
proof (induction k arbitrary: n)
  case 0
  then show ?case by (subst bit_length.simps) simp
next
  case (Suc k)
  then have "2 ^ k \<le> n div 2" by simp
  then have "k < bit_length (n div 2)" by (rule Suc.IH)
  moreover have "(0::nat) < 2 ^ Suc k" by simp
  with Suc.prems have "n \<noteq> 0" by linarith
  ultimately show ?case by (subst bit_length.simps) simp
qed

lemma bit_length_eq: "2 ^ k \<le> n \<Longrightarrow> n < 2 ^ Suc k \<Longrightarrow> bit_length n = Suc k"
  using bit_length_le [of n "Suc k"] bit_length_gt [of k n] by simp

lemma round_binary64_small: "\<bar>x\<bar> < 2 ^ 53 \<Longrightarrow> round_binary64 x = x"
proof -
  assume a: "\<bar>x\<bar> < 2 ^ 53"
  then have "nat \<bar>x\<bar> < 2 ^ 53" by simp
  then have "bit_length (nat \<bar>x\<bar>) \<le> 53" by (rule bit_length_le)
  then show ?thesis
    by (simp add: round_binary64_def Let_def mult_sgn_abs)
qed

lemma round_binary64_pow53: "round_binary64 (2 ^ 53) = 2 ^ 53"
proof -
  have "bit_length (2 ^ 53) = Suc 53" by (rule bit_length_eq) simp_all
  then show ?thesis by (simp add: round_binary64_def Let_def)
qed

lemma round_binary64_pow53_succ: "round_binary64 (2 ^ 53 + 1) = 2 ^ 53"
proof -
  have "bit_length (2 ^ 53 + 1) = Suc 53" by (rule bit_length_eq) simp_all
  then show ?thesis by (simp add: round_binary64_def Let_def)
qed

text \<open>From \<open>2 ^ 53\<close> on, every binary64 value is even.\<close>

lemma round_binary64_even: "2 ^ 53 \<le> \<bar>x\<bar> \<Longrightarrow> even (round_binary64 x)"
proof -
  assume a: "2 ^ 53 \<le> \<bar>x\<bar>"
  have "nat (2 ^ 53) \<le> nat \<bar>x\<bar>" using a by (rule nat_mono)
  then have "2 ^ 53 \<le> nat \<bar>x\<bar>" by simp
  then have "53 < bit_length (nat \<bar>x\<bar>)" by (rule bit_length_gt)
  then have "even ((2::nat) ^ (bit_length (nat \<bar>x\<bar>) - 53))" by simp
  then show ?thesis by (simp add: round_binary64_def Let_def)
qed

lemma is_binary64_small: "\<bar>x\<bar> \<le> 2 ^ 53 \<Longrightarrow> is_binary64 x"
proof -
  assume "\<bar>x\<bar> \<le> 2 ^ 53"
  then consider "\<bar>x\<bar> < 2 ^ 53" | "x = 2 ^ 53" | "x = - (2 ^ 53)" by linarith
  then show ?thesis
  proof cases
    case 1
    then show ?thesis by (simp add: is_binary64_def round_binary64_small)
  next
    case 2
    then show ?thesis using round_binary64_pow53 by (simp add: is_binary64_def)
  next
    case 3
    have "bit_length (2 ^ 53) = Suc 53" by (rule bit_length_eq) simp_all
    with 3 show ?thesis by (simp add: is_binary64_def round_binary64_def Let_def)
  qed
qed

text \<open>Adding one to a counter value: exact below \<open>2 ^ 53\<close>, absorbed at \<open>2 ^ 53\<close>.\<close>

lemma number_add_one:
  "0 \<le> c \<Longrightarrow> c \<le> 2 ^ 53 \<Longrightarrow> number_add c 1 = min (c + 1) (2 ^ 53)"
proof -
  assume a: "0 \<le> c" "c \<le> 2 ^ 53"
  consider "c + 1 < 2 ^ 53" | "c + 1 = 2 ^ 53" | "c = 2 ^ 53" using a by linarith
  then show ?thesis
  proof cases
    case 1
    with a have "\<bar>c + 1\<bar> < 2 ^ 53" by simp
    then have "round_binary64 (c + 1) = c + 1" by (rule round_binary64_small)
    with 1 show ?thesis by (simp add: number_add_def)
  next
    case 2
    then show ?thesis using round_binary64_pow53 by (simp add: number_add_def)
  next
    case 3
    then show ?thesis using round_binary64_pow53_succ by (simp add: number_add_def)
  qed
qed

lemma foldl_updaters:
  "0 \<le> c \<Longrightarrow> c \<le> 2 ^ 53 \<Longrightarrow>
   foldl basicStateReducer c (replicate k (Updater (\<lambda>count. number_add count 1)))
     = min (c + int k) (2 ^ 53)"
proof (induction k arbitrary: c)
  case 0
  then show ?case by simp
next
  case (Suc k)
  let ?c' = "min (c + 1) (2 ^ 53)"
  from Suc.prems have inc: "number_add c 1 = ?c'" by (rule number_add_one)
  from Suc.prems have "0 \<le> ?c'" "?c' \<le> 2 ^ 53" by simp_all
  then have "foldl basicStateReducer ?c' (replicate k (Updater (\<lambda>count. number_add count 1)))
     = min (?c' + int k) (2 ^ 53)" by (rule Suc.IH)
  with inc show ?case by (simp add: min_def)
qed

section \<open>Clicks and renders\<close>

lemma elements_button_jsx:
  "elements ''button'' (jsx c) =
     [Element ''button'' [(''onClick'', Handler onClick)] [Text ''Count is '', Num c]]"
  by (simp add: jsx_def)

lemma load_eq: "load = \<lparr>view = jsx 0, fiber = \<lparr>memoizedState = Some 0, queue = []\<rparr>\<rparr>"
  by (simp add: load_def render_def App_def useState_def mountState_def)

lemma click_eq:
  "click \<lparr>view = jsx c, fiber = \<lparr>memoizedState = m, queue = q\<rparr>\<rparr> =
     \<lparr>view = jsx c,
      fiber = \<lparr>memoizedState = m, queue = q @ [Updater (\<lambda>count. number_add count 1)]\<rparr>\<rparr>"
  by (simp add: click_def elements_button_jsx onClick_def setCount_def dispatchSetState_def)

lemma rerender_eq:
  "rerender \<lparr>view = v, fiber = \<lparr>memoizedState = Some c, queue = q\<rparr>\<rparr> =
     \<lparr>view = jsx (foldl basicStateReducer c q),
      fiber = \<lparr>memoizedState = Some (foldl basicStateReducer c q), queue = []\<rparr>\<rparr>"
  by (simp add: rerender_def render_def App_def useState_def Let_def)

lemma displayed_jsx: "displayed \<lparr>view = jsx c, fiber = h\<rparr> = Some c"
  by (simp add: displayed_def label_def elements_button_jsx)

lemma onClick_funpow:
  "(onClick ^^ k) \<lparr>memoizedState = m, queue = q\<rparr>
     = \<lparr>memoizedState = m, queue = q @ replicate k (Updater (\<lambda>count. number_add count 1))\<rparr>"
proof (induction k)
  case 0
  show ?case by simp
next
  case (Suc k)
  then show ?case
    by (simp add: onClick_def setCount_def dispatchSetState_def replicate_append_same)
qed

text \<open>
  For contrast, actions that carry a value computed at render time do not add up: any
  number of them leaves the value of the last one.
\<close>

lemma foldl_values: "foldl basicStateReducer c (replicate (Suc k) (Value v)) = v"
  by (induction k arbitrary: c) simp_all

lemma click_at: "click (page_at c k) = page_at c (Suc k)"
  by (simp add: page_at_def click_eq replicate_append_same)

lemma rerender_at:
  "0 \<le> c \<Longrightarrow> c \<le> 2 ^ 53 \<Longrightarrow> rerender (page_at c k) = page_at (min (c + int k) (2 ^ 53)) 0"
  by (simp add: page_at_def rerender_eq foldl_updaters)

lemma displayed_at: "displayed (page_at c k) = Some c"
  by (simp add: page_at_def displayed_jsx)

lemma load_at: "load = page_at 0 0"
  by (simp add: page_at_def load_eq)

text \<open>Every reachable page shows a value between 0 and \<open>2 ^ 53\<close>.\<close>

lemma session_at: "\<exists>c k. 0 \<le> c \<and> c \<le> 2 ^ 53 \<and> session es = page_at c k"
proof (induction es rule: rev_induct)
  case Nil
  have "(0::int) \<le> 0 \<and> (0::int) \<le> 2 ^ 53 \<and> session [] = page_at 0 0"
    by (simp add: session_def load_at)
  then show ?case by blast
next
  case (snoc e es)
  then obtain c k where ck: "0 \<le> c" "c \<le> 2 ^ 53" "session es = page_at c k" by blast
  have s: "session (es @ [e]) = dispatch (session es) e" by (simp add: session_def)
  show ?case
  proof (cases e)
    case Click
    with s ck show ?thesis by (auto simp: click_at)
  next
    case Render
    have "0 \<le> min (c + int k) (2 ^ 53)" "min (c + int k) (2 ^ 53) \<le> (2 ^ 53 :: int)"
      using ck by simp_all
    moreover have "session (es @ [e]) = page_at (min (c + int k) (2 ^ 53)) 0"
      using s ck Render by (simp add: rerender_at)
    ultimately show ?thesis by blast
  qed
qed

lemma activate_at:
  "0 \<le> c \<Longrightarrow> c \<le> 2 ^ 53 \<Longrightarrow> activate (page_at c 0) = page_at (min (c + 1) (2 ^ 53)) 0"
  by (simp add: activate_def click_at rerender_at)

lemma activate_funpow: "(activate ^^ n) load = page_at (min (int n) (2 ^ 53)) 0"
proof (induction n)
  case 0
  show ?case by (simp add: load_at)
next
  case (Suc n)
  have "activate (page_at (min (int n) (2 ^ 53)) 0)
          = page_at (min (min (int n) (2 ^ 53) + 1) (2 ^ 53)) 0"
    by (rule activate_at) simp_all
  moreover have "min (min (int n) (2 ^ 53) + 1) (2 ^ 53) = min (int (Suc n)) (2 ^ 53)"
    by simp
  ultimately show ?case using Suc by simp
qed

lemma int_le_pow53: "n \<le> 2 ^ 53 \<Longrightarrow> int n \<le> 2 ^ 53"
  by (metis of_nat_le_iff of_nat_numeral of_nat_power)

section \<open>The counter\<close>

text \<open>
  C1 (as amended). After \<open>n\<close> activations of the button on a freshly loaded page the
  displayed value is \<open>n\<close>, for every \<open>n\<close> up to \<open>2 ^ 53\<close>.
\<close>

theorem clicks_displayed:
  "n \<le> 2 ^ 53 \<Longrightarrow> displayed ((activate ^^ n) load) = Some (int n)"
proof -
  assume "n \<le> 2 ^ 53"
  then have "int n \<le> 2 ^ 53" by (rule int_le_pow53)
  then show ?thesis by (simp add: activate_funpow displayed_at)
qed

theorem clicks_displayed_witness:
  "(4::nat) \<le> 2 ^ 53 \<and> displayed ((activate ^^ 4) load) = Some (int 4)"
  using clicks_displayed [of 4] by simp

text \<open>
  C1 as stated, for every \<open>n\<close>, fails one click later: the value \<open>2 ^ 53 + 1\<close> is not a
  binary64 value, \<^verbatim>\<open>count + 1\<close> returns \<open>2 ^ 53\<close> again and the display stays there.
\<close>

theorem clicks_displayed_counterexample:
  "displayed ((activate ^^ (2 ^ 53 + 1)) load) \<noteq> Some (int (2 ^ 53 + 1))"
  by (simp add: activate_funpow displayed_at)

text \<open>
  C2. In every reachable state the displayed value is a non-negative integer, and one
  more activation shows a value that is not smaller.
\<close>

theorem displayed_nonneg_monotone:
  "\<exists>c c'. displayed (session es) = Some c \<and> displayed (activate (session es)) = Some c'
     \<and> 0 \<le> c \<and> c \<le> c'"
proof -
  obtain c k where ck: "0 \<le> c" "c \<le> 2 ^ 53" "session es = page_at c k"
    using session_at by blast
  then have "activate (session es) = page_at (min (c + int (Suc k)) (2 ^ 53)) 0"
    by (simp add: activate_def click_at rerender_at)
  then have "displayed (activate (session es)) = Some (min (c + int (Suc k)) (2 ^ 53))"
    by (simp add: displayed_at)
  moreover have "displayed (session es) = Some c" using ck by (simp add: displayed_at)
  moreover have "c \<le> min (c + int (Suc k)) (2 ^ 53)" using ck by simp
  ultimately show ?thesis using ck(1) by blast
qed

text \<open>
  C3. A loaded page shows 0; one click shows 1 and three more show 4; a reload shows 0
  again, after any number of activations and from any page.
\<close>

theorem load_reload_scenario:
  "displayed load = Some 0
   \<and> displayed (activate load) = Some 1
   \<and> displayed ((activate ^^ 3) (activate load)) = Some 4
   \<and> displayed (reload ((activate ^^ n) load)) = Some 0
   \<and> displayed (reload p) = Some 0"
proof -
  have l: "displayed load = Some 0" by (simp add: load_at displayed_at)
  have "activate load = (activate ^^ 1) load" by simp
  also have "\<dots> = page_at (min (int 1) (2 ^ 53)) 0" by (rule activate_funpow)
  finally have one: "displayed (activate load) = Some 1" by (simp add: displayed_at)
  have "(activate ^^ 3) (activate load) = (activate ^^ 4) load"
    by (simp add: eval_nat_numeral)
  also have "\<dots> = page_at (min (int 4) (2 ^ 53)) 0" by (rule activate_funpow)
  finally have four: "displayed ((activate ^^ 3) (activate load)) = Some 4"
    by (simp add: displayed_at)
  have r: "displayed (reload q) = Some 0" for q by (simp add: reload_def l)
  from l one four r show ?thesis by simp
qed

text \<open>
  C4 (as amended). The increment takes nothing but the hook's state and has no failing
  case: at every counter value the next render returns \<^verbatim>\<open>count + 1\<close>, and at every
  value from 0 to \<open>2 ^ 53 - 1\<close> that is the value plus one.
\<close>

theorem increment_result:
  "useState 0 (onClick \<lparr>memoizedState = Some c, queue = []\<rparr>)
     = (number_add c 1, \<lparr>memoizedState = Some (number_add c 1), queue = []\<rparr>)
   \<and> (0 \<le> c \<and> c < 2 ^ 53 \<longrightarrow> number_add c 1 = c + 1)"
proof -
  have "number_add c 1 = c + 1" if "0 \<le> c" "c < 2 ^ 53"
  proof -
    from that have "number_add c 1 = min (c + 1) (2 ^ 53)" by (simp add: number_add_one)
    with that show ?thesis by simp
  qed
  then show ?thesis
    by (simp add: useState_def onClick_def setCount_def dispatchSetState_def Let_def)
qed

theorem increment_result_witness:
  "(0::int) \<le> 41 \<and> (41::int) < 2 ^ 53
   \<and> useState 0 (onClick \<lparr>memoizedState = Some 41, queue = []\<rparr>)
       = (42, \<lparr>memoizedState = Some 42, queue = []\<rparr>)"
  using increment_result [of 41] by simp

text \<open>
  C4 as stated, for any counter state, fails at the state reached by \<open>2 ^ 53\<close>
  activations: there \<^verbatim>\<open>count + 1\<close> returns \<open>2 ^ 53\<close>, not \<open>2 ^ 53 + 1\<close>.
\<close>

theorem increment_result_counterexample:
  "fiber ((activate ^^ (2 ^ 53)) load) = \<lparr>memoizedState = Some (2 ^ 53), queue = []\<rparr>
   \<and> fst (useState 0 (onClick \<lparr>memoizedState = Some (2 ^ 53), queue = []\<rparr>)) \<noteq> 2 ^ 53 + 1"
proof -
  have "fiber ((activate ^^ (2 ^ 53)) load) = \<lparr>memoizedState = Some (2 ^ 53), queue = []\<rparr>"
    by (simp add: activate_funpow page_at_def)
  moreover have "number_add (2 ^ 53) 1 = 2 ^ 53"
    using round_binary64_pow53_succ by (simp add: number_add_def)
  then have "fst (useState 0 (onClick \<lparr>memoizedState = Some (2 ^ 53), queue = []\<rparr>)) = 2 ^ 53"
    by (simp add: useState_def onClick_def setCount_def dispatchSetState_def)
  ultimately show ?thesis by simp
qed

text \<open>
  C8 (as amended). Clicks that are processed before a render are queued as updaters,
  and the next render applies each to the result of the one before: \<open>k\<close> clicks on
  the value \<open>c\<close> give \<open>c + k\<close>, as long as \<open>c + k\<close> is at most \<open>2 ^ 53\<close>.
\<close>

theorem batched_clicks:
  "0 \<le> c \<Longrightarrow> c + int k \<le> 2 ^ 53 \<Longrightarrow>
   useState 0 ((onClick ^^ k) \<lparr>memoizedState = Some c, queue = []\<rparr>)
     = (c + int k, \<lparr>memoizedState = Some (c + int k), queue = []\<rparr>)"
proof -
  assume a: "0 \<le> c" "c + int k \<le> 2 ^ 53"
  then have "c \<le> 2 ^ 53" by simp
  with a have "foldl basicStateReducer c (replicate k (Updater (\<lambda>count. number_add count 1)))
      = min (c + int k) (2 ^ 53)" by (simp add: foldl_updaters)
  with a show ?thesis by (simp add: onClick_funpow useState_def Let_def)
qed

theorem batched_clicks_witness:
  "(0::int) \<le> 5 \<and> (5::int) + int 3 \<le> 2 ^ 53 \<and>
   useState 0 ((onClick ^^ 3) \<lparr>memoizedState = Some 5, queue = []\<rparr>)
     = (8, \<lparr>memoizedState = Some 8, queue = []\<rparr>)"
  using batched_clicks [of 5 3] by simp

text \<open>
  C8 as stated fails at the top of the range: two clicks queued on \<open>2 ^ 53 - 1\<close> give
  \<open>2 ^ 53\<close>, one less than two increments by one.
\<close>

theorem batched_clicks_counterexample:
  "fiber ((activate ^^ (2 ^ 53 - 1)) load) = \<lparr>memoizedState = Some (2 ^ 53 - 1), queue = []\<rparr>
   \<and> fst (useState 0 ((onClick ^^ 2) \<lparr>memoizedState = Some (2 ^ 53 - 1), queue = []\<rparr>))
         \<noteq> (2 ^ 53 - 1) + 2"
proof -
  have "fiber ((activate ^^ (2 ^ 53 - 1)) load)
      = \<lparr>memoizedState = Some (2 ^ 53 - 1), queue = []\<rparr>"
    by (simp add: activate_funpow page_at_def)
  moreover have
    "foldl basicStateReducer (2 ^ 53 - 1) (replicate 2 (Updater (\<lambda>count. number_add count 1)))
      = min ((2 ^ 53 - 1) + int 2) (2 ^ 53)" by (rule foldl_updaters) simp_all
  then have "fst (useState 0 ((onClick ^^ 2) \<lparr>memoizedState = Some (2 ^ 53 - 1), queue = []\<rparr>))
      \<noteq> (2 ^ 53 - 1) + 2"
    by (simp add: onClick_funpow useState_def)
  ultimately show ?thesis by simp
qed

text \<open>
  C9. For a counter value that is a binary64 value, \<^verbatim>\<open>count + 1\<close> is the exact successor
  if and only if the value is below \<open>2 ^ 53\<close>; and for \<open>n\<close> up to \<open>2 ^ 53\<close> the displayed
  value after \<open>n\<close> activations is \<open>n\<close>.
\<close>

theorem successor_exact_below_pow53:
  "(0 \<le> c \<and> is_binary64 c \<longrightarrow> (number_add c 1 = c + 1) = (c < 2 ^ 53))
   \<and> (n \<le> 2 ^ 53 \<longrightarrow> displayed ((activate ^^ n) load) = Some (int n))"
proof (intro conjI impI)
  assume a: "0 \<le> c \<and> is_binary64 c"
  show "(number_add c 1 = c + 1) = (c < 2 ^ 53)"
  proof (cases "c < 2 ^ 53")
    case True
    with a have "number_add c 1 = min (c + 1) (2 ^ 53)" by (simp add: number_add_one)
    with True show ?thesis by simp
  next
    case False
    then have big: "2 ^ 53 \<le> \<bar>c\<bar>" "2 ^ 53 \<le> \<bar>c + 1\<bar>" by simp_all
    from big(1) have "even (round_binary64 c)" by (rule round_binary64_even)
    with a have "even c" by (simp add: is_binary64_def)
    moreover from big(2) have "even (number_add c 1)"
      unfolding number_add_def by (rule round_binary64_even)
    ultimately have "number_add c 1 \<noteq> c + 1" by auto
    with False show ?thesis by simp
  qed
next
  assume "n \<le> 2 ^ 53"
  then have "int n \<le> 2 ^ 53" by (rule int_le_pow53)
  then show "displayed ((activate ^^ n) load) = Some (int n)"
    by (simp add: activate_funpow displayed_at)
qed

theorem successor_exact_below_pow53_witness:
  "(0::int) \<le> 2 ^ 53 \<and> is_binary64 (2 ^ 53) \<and> number_add (2 ^ 53) 1 \<noteq> 2 ^ 53 + 1
   \<and> (0::int) \<le> 2 ^ 53 - 1 \<and> is_binary64 (2 ^ 53 - 1) \<and> number_add (2 ^ 53 - 1) 1 = 2 ^ 53
   \<and> (3::nat) \<le> 2 ^ 53 \<and> displayed ((activate ^^ 3) load) = Some 3"
proof -
  have b: "is_binary64 (2 ^ 53)" "is_binary64 (2 ^ 53 - 1)"
    by (rule is_binary64_small, simp)+
  from b successor_exact_below_pow53 [of "2 ^ 53" 3] successor_exact_below_pow53 [of "2 ^ 53 - 1" 3]
  show ?thesis by simp
qed
text \<open>
  The counter saturates: after \<open>n\<close> activations the displayed value is the smaller of
  \<open>n\<close> and \<open>2 ^ 53\<close>.
\<close>

theorem clicks_saturate: "displayed ((activate ^^ n) load) = Some (min (int n) (2 ^ 53))"
  by (simp add: activate_funpow displayed_at)

text \<open>Every reachable page shows a binary64 value of at most \<open>2 ^ 53\<close>.\<close>

theorem displayed_binary64:
  "\<exists>c. displayed (session es) = Some c \<and> is_binary64 c \<and> c \<le> 2 ^ 53"
proof -
  obtain c k where ck: "0 \<le> c" "c \<le> 2 ^ 53" "session es = page_at c k"
    using session_at by blast
  then have "is_binary64 c" by (intro is_binary64_small) simp
  with ck show ?thesis by (auto simp: displayed_at)
qed

section \<open>What an activation leaves unchanged\<close>

lemma diff_jsx: "diff (jsx c) (jsx c') = (if c = c' then [] else [[2, 2, 1]])"
  by (simp add: jsx_def eval_nat_numeral)

lemma subtree_jsx: "subtree (jsx c) [2, 2, 1] = Some (Num c)"
  by (simp add: jsx_def eval_nat_numeral)

lemma subtree_button_jsx:
  "subtree (jsx c) [2, 2]
     = Some (Element ''button'' [(''onClick'', Handler onClick)] [Text ''Count is '', Num c])"
  by (simp add: jsx_def eval_nat_numeral)

lemma elements_a_jsx: "elements ''a'' (jsx c) = elements ''a'' (jsx 0)"
  by (simp add: jsx_def)

lemma elements_h1_jsx: "elements ''h1'' (jsx c) = elements ''h1'' (jsx 0)"
  by (simp add: jsx_def)

lemma elements_p_jsx: "elements ''p'' (jsx c) = elements ''p'' (jsx 0)"
  by (simp add: jsx_def)

text \<open>Two trees differ nowhere exactly when they are equal.\<close>

lemma no_diff_iff:
  "(diff a b = []) = (a = b)"
  "length cs = length cs' \<Longrightarrow> (diffs i cs cs' = []) = (cs = cs')"
  by (induction a b and i cs cs' rule: diff_diffs.induct) auto

text \<open>
  C10. Between a reachable page and the page after one more activation the views differ
  at most at one position, that of the number in the button's label; the links with
  their attributes, the heading and the paragraphs are the same.
\<close>

theorem activation_frame:
  "\<exists>c. displayed (session es) = Some c
     \<and> subtree (view (session es)) [2, 2]
         = Some (Element ''button'' [(''onClick'', Handler onClick)] [Text ''Count is '', Num c])
     \<and> subtree (view (session es)) [2, 2, 1] = Some (Num c)
     \<and> set (diff (view (session es)) (view (activate (session es)))) \<subseteq> {[2, 2, 1]}
     \<and> elements ''a'' (view (activate (session es))) = elements ''a'' (view (session es))
     \<and> elements ''h1'' (view (activate (session es))) = elements ''h1'' (view (session es))
     \<and> elements ''p'' (view (activate (session es))) = elements ''p'' (view (session es))"
proof -
  obtain c k where ck: "0 \<le> c" "c \<le> 2 ^ 53" "session es = page_at c k"
    using session_at by blast
  define c' where "c' = min (c + int (Suc k)) (2 ^ 53)"
  have "activate (session es) = page_at c' 0"
    using ck by (simp add: c'_def activate_def click_at rerender_at)
  then have after: "view (activate (session es)) = jsx c'" by (simp add: page_at_def)
  have before: "view (session es) = jsx c" using ck(3) by (simp add: page_at_def)
  have shown: "displayed (session es) = Some c" using ck(3) by (simp add: displayed_at)
  have "set (diff (jsx c) (jsx c')) \<subseteq> {[2, 2, 1]}" using diff_jsx [of c c'] by simp
  moreover have "subtree (jsx c) [2, 2, 1] = Some (Num c)" by (rule subtree_jsx)
  moreover have "elements ''a'' (jsx c') = elements ''a'' (jsx c)"
    using elements_a_jsx [of c] elements_a_jsx [of c'] by simp
  moreover have "elements ''h1'' (jsx c') = elements ''h1'' (jsx c)"
    using elements_h1_jsx [of c] elements_h1_jsx [of c'] by simp
  moreover have "elements ''p'' (jsx c') = elements ''p'' (jsx c)"
    using elements_p_jsx [of c] elements_p_jsx [of c'] by simp
  ultimately show ?thesis
    unfolding before after using shown subtree_button_jsx [of c] by (intro exI [of _ c] conjI)
qed


section \<open>The pipeline\<close>

lemma run_step_trace: "trace (snd (run_step ok j s st)) = trace st @ [(j, step_name s)]"
  by (simp add: run_step_def Let_def split: option.splits)

lemma run_step_conclusions: "conclusions (snd (run_step ok j s st)) = conclusions st"
  by (simp add: run_step_def Let_def split: option.splits)

lemma run_step_ok: "fst (run_step ok j s st) \<Longrightarrow> ok j (step_name s)"
  by (simp add: run_step_def Let_def split: option.splits if_splits)

lemma run_steps_shape:
  "\<exists>ns. trace (snd (run_steps ok j ss st)) = trace st @ map (Pair j) ns
     \<and> conclusions (snd (run_steps ok j ss st)) = conclusions st
     \<and> (fst (run_steps ok j ss st) = Success \<and> ns = map step_name ss
          \<and> list_all (\<lambda>s. ok j (step_name s)) ss
        \<or> fst (run_steps ok j ss st) = Failure)"
proof (induction ss arbitrary: st)
  case Nil
  show ?case by (intro exI [of _ "[]"]) simp
next
  case (Cons s ss)
  obtain b st' where r: "run_step ok j s st = (b, st')" by (cases "run_step ok j s st")
  then have t: "trace st' = trace st @ [(j, step_name s)]" "conclusions st' = conclusions st"
    using run_step_trace [of ok j s st] run_step_conclusions [of ok j s st] by simp_all
  show ?case
  proof (cases b)
    case False
    with r t have "trace (snd (run_steps ok j (s # ss) st)) = trace st @ map (Pair j) [step_name s]"
      "conclusions (snd (run_steps ok j (s # ss) st)) = conclusions st"
      "fst (run_steps ok j (s # ss) st) = Failure" by simp_all
    then show ?thesis by (intro exI [of _ "[step_name s]"] conjI disjI2)
  next
    case True
    with r have ok: "ok j (step_name s)" using run_step_ok [of ok j s st] by simp
    from True r have eq: "run_steps ok j (s # ss) st = run_steps ok j ss st'" by simp
    from Cons.IH [of st'] obtain ns where
      ns: "trace (snd (run_steps ok j ss st')) = trace st' @ map (Pair j) ns"
          "conclusions (snd (run_steps ok j ss st')) = conclusions st'"
          "fst (run_steps ok j ss st') = Success \<and> ns = map step_name ss
             \<and> list_all (\<lambda>s. ok j (step_name s)) ss
           \<or> fst (run_steps ok j ss st') = Failure" by blast
    have "trace (snd (run_steps ok j (s # ss) st)) = trace st @ map (Pair j) (step_name s # ns)"
      using eq ns(1) t(1) by simp
    moreover have "conclusions (snd (run_steps ok j (s # ss) st)) = conclusions st"
      using eq ns(2) t(2) by simp
    moreover have "fst (run_steps ok j (s # ss) st) = Success
         \<and> step_name s # ns = map step_name (s # ss)
         \<and> list_all (\<lambda>s. ok j (step_name s)) (s # ss)
       \<or> fst (run_steps ok j (s # ss) st) = Failure"
      using eq ns(3) ok by auto
    ultimately show ?thesis by (intro exI [of _ "step_name s # ns"] conjI)
  qed
qed

lemma run_job_shape:
  "\<exists>ns c. trace (run_job gh ok i j st) = trace st @ map (Pair i) ns
     \<and> conclusions (run_job gh ok i j st) = conclusions st @ [(i, c)]
     \<and> (\<not> guard gh j st \<and> ns = [] \<and> c = Skipped
        \<or> guard gh j st \<and> c = Success \<and> ns = map step_name (steps j) \<and> passes ok i j
        \<or> guard gh j st \<and> c = Failure)"
proof (cases "guard gh j st")
  case False
  then have "run_job gh ok i j st = conclude i Skipped st"
    by (simp add: run_job_def)
  then have "trace (run_job gh ok i j st) = trace st @ map (Pair i) []"
    "conclusions (run_job gh ok i j st) = conclusions st @ [(i, Skipped)]"
    by (simp_all add: conclude_def)
  with False show ?thesis by (intro exI [of _ "[]"] exI [of _ Skipped]) simp
next
  case True
  let ?r = "run_steps ok i (steps j) (st\<lparr>workspace := []\<rparr>)"
  from True have eq: "run_job gh ok i j st = conclude i (fst ?r) (snd ?r)"
    by (simp add: run_job_def split: prod.splits)
  from run_steps_shape [of ok i "steps j" "st\<lparr>workspace := []\<rparr>"] obtain ns where
    ns: "trace (snd ?r) = trace st @ map (Pair i) ns"
        "conclusions (snd ?r) = conclusions st"
        "fst ?r = Success \<and> ns = map step_name (steps j)
           \<and> list_all (\<lambda>s. ok i (step_name s)) (steps j)
         \<or> fst ?r = Failure" by auto
  have "trace (run_job gh ok i j st) = trace st @ map (Pair i) ns"
    "conclusions (run_job gh ok i j st) = conclusions st @ [(i, fst ?r)]"
    using eq ns(1,2) by (simp_all add: conclude_def)
  with True ns(3) show ?thesis
    unfolding passes_def by (intro exI [of _ ns] exI [of _ "fst ?r"]) auto
qed

lemma main_lower: "map lower ''refs/heads/main'' = ''refs/heads/main''"
  by (simp add: lower_def)

lemma eval_ref_main:
  "eval_expr gh (Equals GithubRef (Literal ''refs/heads/main''))
     = (map lower (ref gh) = ''refs/heads/main'')"
  unfolding eval_expr.simps operand_value.simps main_lower ..

lemma guard_deploy_job:
  "guard gh deploy_job st
     = (map_of (conclusions st) ''build'' = Some Success
        \<and> map lower (ref gh) = ''refs/heads/main'')"
proof -
  have "needs deploy_job = [''build'']"
    "if_condition deploy_job = Some (Equals GithubRef (Literal ''refs/heads/main''))"
    by (simp_all add: deploy_job_def)
  then show ?thesis by (simp add: guard_def eval_ref_main del: eval_expr.simps)
qed

lemma run_jobs_deploy_yml:
  "run_jobs deploy_yml gh ok
     = run_job gh ok ''deploy'' deploy_job (run_job gh ok ''build'' build_job initial)"
proof -
  let ?st = "run_job gh ok ''build'' build_job initial"
  obtain c where "conclusions ?st = conclusions initial @ [(''build'', c)]"
    using run_job_shape [of gh ok "''build''" build_job initial] by blast
  then have c: "map_of (conclusions ?st) ''build'' = Some c" by (simp add: initial_def)
  have b: "ready initial (''build'', build_job)" by (simp add: ready_def build_job_def)
  have d: "ready ?st (''deploy'', deploy_job)" using c by (simp add: ready_def deploy_job_def)
  have "schedule gh ok (Suc (Suc 0)) [(''build'', build_job), (''deploy'', deploy_job)] initial
      = run_job gh ok ''deploy'' deploy_job ?st"
    using b d by (simp split: option.splits)
  then show ?thesis by (simp add: run_jobs_def deploy_yml_def)
qed

lemma build_passes:
  "passes ok ''build'' build_job \<Longrightarrow>
   run_job gh ok ''build'' build_job initial =
     \<lparr>trace = map (Pair ''build'') (map step_name (steps build_job)),
      artifacts = [(''production-files'', ''./dist'')],
      workspace = [], published = [],
      conclusions = [(''build'', Success)]\<rparr>"
  by (simp add: passes_def run_job_def guard_def build_job_def run_step_def action_of_def
      input_def conclude_def initial_def Let_def)

lemma deploy_passes:
  assumes "passes ok ''deploy'' deploy_job" and "ref gh = ''refs/heads/main''"
  shows "run_job gh ok ''deploy'' deploy_job
     \<lparr>trace = t, artifacts = [(''production-files'', ''./dist'')],
      workspace = [], published = [], conclusions = [(''build'', Success)]\<rparr> =
     \<lparr>trace = t @ map (Pair ''deploy'') (map step_name (steps deploy_job)),
      artifacts = [(''production-files'', ''./dist'')],
      workspace = [(''./dist'', ''production-files'')],
      published = [(''./dist'', Some ''production-files'')],
      conclusions = [(''build'', Success), (''deploy'', Success)]\<rparr>"
proof -
  let ?st = "\<lparr>trace = t, artifacts = [(''production-files'', ''./dist'')],
      workspace = [], published = [], conclusions = [(''build'', Success)]\<rparr>"
  have "map lower (ref gh) = ''refs/heads/main''" unfolding assms(2) by (rule main_lower)
  then have "guard gh deploy_job ?st" by (simp add: guard_deploy_job)
  then have "run_job gh ok ''deploy'' deploy_job ?st
      = (case run_steps ok ''deploy'' (steps deploy_job) (?st\<lparr>workspace := []\<rparr>) of
           (c, st') \<Rightarrow> conclude ''deploy'' c st')"
    by (simp only: run_job_def if_True)
  also have "\<dots> = \<lparr>trace = t @ map (Pair ''deploy'') (map step_name (steps deploy_job)),
      artifacts = [(''production-files'', ''./dist'')],
      workspace = [(''./dist'', ''production-files'')],
      published = [(''./dist'', Some ''production-files'')],
      conclusions = [(''build'', Success), (''deploy'', Success)]\<rparr>"
    using assms(1)
    by (simp add: passes_def deploy_job_def run_step_def action_of_def input_def
        conclude_def Let_def)
  finally show ?thesis .
qed

text \<open>
  C5. In a run of the workflow a step of the job \<^verbatim>\<open>deploy\<close> runs only if the ref is
  \<^verbatim>\<open>refs/heads/main\<close> and the job \<^verbatim>\<open>build\<close> has concluded with success, every one of
  its steps having succeeded. The jobs themselves, whatever started them, run a step of
  \<^verbatim>\<open>deploy\<close> only if the condition of line 112 holds (the ref is \<^verbatim>\<open>refs/heads/main\<close>,
  compared ignoring case) and \<^verbatim>\<open>build\<close> has succeeded; the steps of \<^verbatim>\<open>build\<close> come
  before those of \<^verbatim>\<open>deploy\<close>, and all of them when \<^verbatim>\<open>deploy\<close> runs at all; when a
  step of \<^verbatim>\<open>build\<close> fails, \<^verbatim>\<open>deploy\<close> is skipped and none of its steps runs. The
  workflow runs its jobs only on a push to \<^verbatim>\<open>main\<close>.
\<close>

theorem deploy_only_after_build:
  "(''deploy'' \<in> fst ` set (trace (run_workflow deploy_yml gh ok)) \<longrightarrow>
      ref gh = ''refs/heads/main''
      \<and> passes ok ''build'' build_job
      \<and> map_of (conclusions (run_workflow deploy_yml gh ok)) ''build'' = Some Success)
   \<and> (''deploy'' \<in> fst ` set (trace (run_jobs deploy_yml gh ok)) \<longrightarrow>
      map lower (ref gh) = ''refs/heads/main''
      \<and> passes ok ''build'' build_job
      \<and> map_of (conclusions (run_jobs deploy_yml gh ok)) ''build'' = Some Success)
   \<and> (\<exists>bs ds. trace (run_jobs deploy_yml gh ok)
                  = map (Pair ''build'') bs @ map (Pair ''deploy'') ds
          \<and> (ds = [] \<or> bs = map step_name (steps build_job)))
   \<and> (\<not> passes ok ''build'' build_job \<longrightarrow>
        ''deploy'' \<notin> fst ` set (trace (run_jobs deploy_yml gh ok))
        \<and> map_of (conclusions (run_jobs deploy_yml gh ok)) ''deploy'' = Some Skipped)
   \<and> run_workflow deploy_yml gh ok
       = (if event_name gh = ''push'' \<and> ref gh = ''refs/heads/main''
          then run_jobs deploy_yml gh ok else initial)"
proof -
  let ?b = "run_job gh ok ''build'' build_job initial"
  let ?r = "run_jobs deploy_yml gh ok"
  have r: "?r = run_job gh ok ''deploy'' deploy_job ?b" by (rule run_jobs_deploy_yml)
  obtain bs c where b:
    "trace ?b = trace initial @ map (Pair ''build'') bs"
    "conclusions ?b = conclusions initial @ [(''build'', c)]"
    "\<not> guard gh build_job initial \<and> bs = [] \<and> c = Skipped
      \<or> guard gh build_job initial \<and> c = Success \<and> bs = map step_name (steps build_job)
          \<and> passes ok ''build'' build_job
      \<or> guard gh build_job initial \<and> c = Failure"
    using run_job_shape [of gh ok "''build''" build_job initial] by blast
  obtain ds d where d:
    "trace ?r = trace ?b @ map (Pair ''deploy'') ds"
    "conclusions ?r = conclusions ?b @ [(''deploy'', d)]"
    "\<not> guard gh deploy_job ?b \<and> ds = [] \<and> d = Skipped
      \<or> guard gh deploy_job ?b \<and> d = Success \<and> ds = map step_name (steps deploy_job)
          \<and> passes ok ''deploy'' deploy_job
      \<or> guard gh deploy_job ?b \<and> d = Failure"
    using run_job_shape [of gh ok "''deploy''" deploy_job ?b] unfolding r by blast
  have tr: "trace ?r = map (Pair ''build'') bs @ map (Pair ''deploy'') ds"
    using b(1) d(1) by (simp add: initial_def)
  have cs: "conclusions ?r = [(''build'', c), (''deploy'', d)]"
    using b(2) d(2) by (simp add: initial_def)
  have g: "guard gh deploy_job ?b = (c = Success \<and> map lower (ref gh) = ''refs/heads/main'')"
    using b(2) by (simp add: guard_deploy_job initial_def)
  have succ: "c = Success \<Longrightarrow> passes ok ''build'' build_job \<and> bs = map step_name (steps build_job)"
    using b(3) by auto
  have fail: "\<not> passes ok ''build'' build_job \<Longrightarrow> c \<noteq> Success"
    using b(3) by auto
  have ran: "''deploy'' \<in> fst ` set (trace ?r) \<Longrightarrow> ds \<noteq> []"
    unfolding tr by auto
  have started: "ds \<noteq> [] \<Longrightarrow> c = Success \<and> map lower (ref gh) = ''refs/heads/main''"
    using d(3) g by auto
  have 1: "''deploy'' \<in> fst ` set (trace ?r) \<longrightarrow>
      map lower (ref gh) = ''refs/heads/main'' \<and> passes ok ''build'' build_job
      \<and> map_of (conclusions ?r) ''build'' = Some Success"
    using ran started succ cs by auto
  have 2: "\<exists>bs ds. trace ?r = map (Pair ''build'') bs @ map (Pair ''deploy'') ds
          \<and> (ds = [] \<or> bs = map step_name (steps build_job))"
    using tr started succ by (intro exI [of _ bs] exI [of _ ds]) auto
  have 3: "\<not> passes ok ''build'' build_job \<longrightarrow>
        ''deploy'' \<notin> fst ` set (trace ?r)
        \<and> map_of (conclusions ?r) ''deploy'' = Some Skipped"
    using fail ran started d(3) g cs by auto
  have 4: "run_workflow deploy_yml gh ok
       = (if event_name gh = ''push'' \<and> ref gh = ''refs/heads/main'' then ?r else initial)"
    by (simp add: run_workflow_def triggered_def deploy_yml_def)
  have 0: "''deploy'' \<in> fst ` set (trace (run_workflow deploy_yml gh ok)) \<longrightarrow>
      ref gh = ''refs/heads/main'' \<and> passes ok ''build'' build_job
      \<and> map_of (conclusions (run_workflow deploy_yml gh ok)) ''build'' = Some Success"
    using 1 unfolding 4 by (simp add: initial_def)
  from 0 1 2 3 4 show ?thesis by blast
qed

theorem deploy_only_after_build_witness:
  "''deploy'' \<in> fst ` set (trace (run_workflow deploy_yml main_push (\<lambda>j s. True)))
   \<and> ''deploy'' \<in> fst ` set (trace (run_jobs deploy_yml main_push (\<lambda>j s. True)))
   \<and> ref main_push = ''refs/heads/main''
   \<and> passes (\<lambda>j s. True) ''build'' build_job
   \<and> map_of (conclusions (run_workflow deploy_yml main_push (\<lambda>j s. True))) ''build''
       = Some Success
   \<and> \<not> passes (\<lambda>j s. s \<noteq> ''Build project'') ''build'' build_job
   \<and> ''deploy'' \<notin> fst ` set (trace (run_jobs deploy_yml main_push (\<lambda>j s. s \<noteq> ''Build project'')))
   \<and> map_of (conclusions (run_jobs deploy_yml main_push (\<lambda>j s. s \<noteq> ''Build project'')))
         ''deploy'' = Some Skipped"
proof -
  have p: "passes (\<lambda>j s. True) ''build'' build_job" "passes (\<lambda>j s. True) ''deploy'' deploy_job"
    by (simp_all add: passes_def list_all_iff)
  have m: "ref main_push = ''refs/heads/main''" by (simp add: main_push_def)
  have "trace (run_jobs deploy_yml main_push (\<lambda>j s. True))
      = map (Pair ''build'') (map step_name (steps build_job))
        @ map (Pair ''deploy'') (map step_name (steps deploy_job))"
    by (simp add: run_jobs_deploy_yml build_passes [OF p(1)] deploy_passes [OF p(2) m])
  then have ran: "''deploy'' \<in> fst ` set (trace (run_jobs deploy_yml main_push (\<lambda>j s. True)))"
    by (simp add: deploy_job_def)
  have w: "run_workflow deploy_yml main_push ok = run_jobs deploy_yml main_push ok" for ok
    by (simp add: run_workflow_def triggered_def deploy_yml_def main_push_def)
  have f: "\<not> passes (\<lambda>j s. s \<noteq> ''Build project'') ''build'' build_job"
    by (simp add: passes_def build_job_def)
  have ran': "''deploy'' \<in> fst ` set (trace (run_workflow deploy_yml main_push (\<lambda>j s. True)))"
    using ran by (simp only: w)
  note all_pass = deploy_only_after_build [of main_push "\<lambda>j s. True"]
  note build_fails = deploy_only_after_build [of main_push "\<lambda>j s. s \<noteq> ''Build project''"]
  have a: "ref main_push = ''refs/heads/main''
      \<and> passes (\<lambda>j s. True) ''build'' build_job
      \<and> map_of (conclusions (run_workflow deploy_yml main_push (\<lambda>j s. True))) ''build''
          = Some Success"
    using all_pass [THEN conjunct1] ran' by (rule mp)
  have b: "''deploy'' \<notin> fst ` set (trace (run_jobs deploy_yml main_push (\<lambda>j s. s \<noteq> ''Build project'')))
      \<and> map_of (conclusions (run_jobs deploy_yml main_push (\<lambda>j s. s \<noteq> ''Build project'')))
            ''deploy'' = Some Skipped"
    using build_fails [THEN conjunct2, THEN conjunct2, THEN conjunct2, THEN conjunct1] f
    by (rule mp)
  from ran' ran a f b show ?thesis by (intro conjI) simp_all
qed

text \<open>
  C6. The upload step of \<^verbatim>\<open>build\<close> uploads \<^verbatim>\<open>./dist\<close> under the name
  \<^verbatim>\<open>production-files\<close>, the download step of \<^verbatim>\<open>deploy\<close> asks for the same name and
  comes before the publishing step; so a passing build leaves that artifact, and on a
  passing run what is published is the downloaded artifact.
\<close>

theorem artifact_flow:
  "[(input s ''name'', input s ''path'').
      s \<leftarrow> steps build_job, action_of s = ''actions/upload-artifact'']
     = [(Some ''production-files'', Some ''./dist'')]
   \<and> [input s ''name''. s \<leftarrow> steps deploy_job, action_of s = ''actions/download-artifact'']
     = [Some ''production-files'']
   \<and> map action_of (steps deploy_job) = [''actions/download-artifact'', ''peaceiris/actions-gh-pages'']
   \<and> (passes ok ''build'' build_job \<longrightarrow>
        artifacts (run_job gh ok ''build'' build_job initial) = [(''production-files'', ''./dist'')])
   \<and> (passes ok ''build'' build_job \<and> passes ok ''deploy'' deploy_job
        \<and> ref gh = ''refs/heads/main'' \<longrightarrow>
        trace (run_jobs deploy_yml gh ok)
          = map (Pair ''build'') (map step_name (steps build_job))
            @ map (Pair ''deploy'') (map step_name (steps deploy_job))
        \<and> artifacts (run_jobs deploy_yml gh ok) = [(''production-files'', ''./dist'')]
        \<and> published (run_jobs deploy_yml gh ok) = [(''./dist'', Some ''production-files'')]
        \<and> conclusions (run_jobs deploy_yml gh ok) = [(''build'', Success), (''deploy'', Success)])"
proof -
  have 1: "[(input s ''name'', input s ''path'').
      s \<leftarrow> steps build_job, action_of s = ''actions/upload-artifact'']
     = [(Some ''production-files'', Some ''./dist'')]"
    by (simp add: build_job_def action_of_def input_def)
  have 2: "[input s ''name''. s \<leftarrow> steps deploy_job, action_of s = ''actions/download-artifact'']
     = [Some ''production-files'']"
    by (simp add: deploy_job_def action_of_def input_def)
  have 3: "map action_of (steps deploy_job)
     = [''actions/download-artifact'', ''peaceiris/actions-gh-pages'']"
    by (simp add: deploy_job_def action_of_def)
  have 4: "artifacts (run_job gh ok ''build'' build_job initial) = [(''production-files'', ''./dist'')]"
    if "passes ok ''build'' build_job"
    using build_passes [OF that] by simp
  have 5: "trace (run_jobs deploy_yml gh ok)
          = map (Pair ''build'') (map step_name (steps build_job))
            @ map (Pair ''deploy'') (map step_name (steps deploy_job))
        \<and> artifacts (run_jobs deploy_yml gh ok) = [(''production-files'', ''./dist'')]
        \<and> published (run_jobs deploy_yml gh ok) = [(''./dist'', Some ''production-files'')]
        \<and> conclusions (run_jobs deploy_yml gh ok) = [(''build'', Success), (''deploy'', Success)]"
    if "passes ok ''build'' build_job" "passes ok ''deploy'' deploy_job" "ref gh = ''refs/heads/main''"
    by (simp add: run_jobs_deploy_yml build_passes [OF that(1)] deploy_passes [OF that(2,3)])
  from 1 2 3 4 5 show ?thesis by blast
qed

theorem artifact_flow_witness:
  "passes (\<lambda>j s. True) ''build'' build_job \<and> passes (\<lambda>j s. True) ''deploy'' deploy_job
   \<and> ref main_push = ''refs/heads/main''
   \<and> artifacts (run_job main_push (\<lambda>j s. True) ''build'' build_job initial)
       = [(''production-files'', ''./dist'')]
   \<and> artifacts (run_jobs deploy_yml main_push (\<lambda>j s. True)) = [(''production-files'', ''./dist'')]
   \<and> published (run_jobs deploy_yml main_push (\<lambda>j s. True)) = [(''./dist'', Some ''production-files'')]
   \<and> conclusions (run_jobs deploy_yml main_push (\<lambda>j s. True))
       = [(''build'', Success), (''deploy'', Success)]"
proof -
  have "passes (\<lambda>j s. True) ''build'' build_job" "passes (\<lambda>j s. True) ''deploy'' deploy_job"
    "ref main_push = ''refs/heads/main''"
    by (simp_all add: passes_def list_all_iff main_push_def)
  with artifact_flow [of "\<lambda>j s. True" main_push] show ?thesis by blast
qed

section \<open>The configured base path\<close>

text \<open>
  C7. The \<^verbatim>\<open>base\<close> of the Vite configuration is the repository's name between
  slashes, which is the path GitHub Pages serves the site under, and every asset
  address starts with it.
\<close>

theorem base_is_repository_path:
  "base vite_config_js = ''/'' @ repository @ ''/''
   \<and> pages_url user repository = ''https://'' @ user @ ''.github.io'' @ base vite_config_js
   \<and> asset_url vite_config_js file = ''/'' @ repository @ ''/'' @ file"
  by (simp add: vite_config_js_def repository_def pages_url_def asset_url_def)


end
